theory Spec2Isabelle
  imports Complex_Main "HOL-Library.AList" "HOL-Library.Sublist"
begin

section \<open>Python values used by \<open>parse_kicad_python.py\<close>\<close>

text \<open>
  Text is a list of characters. The characters of the model are the code points
  0..255; the classes \<open>\s\<close> and \<open>\d\<close> below are Python's on that range.

  A Python float that \<open>float()\<close> can return on a string of the class \<open>[-\d.]+\<close>,
  or that the program writes as \<open>float("inf")\<close> / \<open>float("-inf")\<close>: a finite value or
  an infinity (an over-long literal overflows to an infinity), never a NaN. The sign of
  zero is not kept: Python compares \<open>-0.0\<close> and \<open>0.0\<close> equal.
\<close>

datatype pyfloat = MInf | Finite rat | PInf

fun float_less :: "pyfloat \<Rightarrow> pyfloat \<Rightarrow> bool" where
  "float_less MInf MInf = False"
| "float_less MInf _ = True"
| "float_less (Finite a) (Finite b) = (a < b)"
| "float_less (Finite a) PInf = True"
| "float_less (Finite a) MInf = False"
| "float_less PInf _ = False"

instantiation pyfloat :: linorder
begin

definition less_pyfloat :: "pyfloat \<Rightarrow> pyfloat \<Rightarrow> bool" where
  "less_pyfloat a b = float_less a b"

definition less_eq_pyfloat :: "pyfloat \<Rightarrow> pyfloat \<Rightarrow> bool" where
  "less_eq_pyfloat a b = (a = b \<or> float_less a b)"

instance
proof
  fix a b c :: pyfloat
  show "(a < b) = (a \<le> b \<and> \<not> b \<le> a)"
    by (cases a; cases b) (auto simp: less_pyfloat_def less_eq_pyfloat_def)
  show "a \<le> a"
    by (simp add: less_eq_pyfloat_def)
  show "a \<le> b \<Longrightarrow> b \<le> c \<Longrightarrow> a \<le> c"
    by (cases a; cases b; cases c) (auto simp: less_eq_pyfloat_def)
  show "a \<le> b \<Longrightarrow> b \<le> a \<Longrightarrow> a = b"
    by (cases a; cases b) (auto simp: less_eq_pyfloat_def)
  show "a \<le> b \<or> b \<le> a"
    by (cases a; cases b) (auto simp: less_eq_pyfloat_def)
qed

end

text \<open>Unary minus on floats (\<open>-float(...)\<close>).\<close>

fun float_neg :: "pyfloat \<Rightarrow> pyfloat" where
  "float_neg MInf = PInf"
| "float_neg (Finite a) = Finite (- a)"
| "float_neg PInf = MInf"

text \<open>
  Python's \<open>min(a, b)\<close> and \<open>max(a, b)\<close> on two arguments: the first argument is kept
  unless the second is strictly smaller (larger).
\<close>

definition py_min :: "pyfloat \<Rightarrow> pyfloat \<Rightarrow> pyfloat" where
  "py_min a b = (if b < a then b else a)"

definition py_max :: "pyfloat \<Rightarrow> pyfloat \<Rightarrow> pyfloat" where
  "py_max a b = (if a < b then b else a)"

datatype error = ValueError

text \<open>
  \<open>float(s)\<close> on a string of minus signs, digits and dots: an optional leading minus,
  digits with at most one dot, at least one digit; anything else raises \<open>ValueError\<close>.
  The decimal value is then rounded to a float; the rounding function \<open>rnd\<close> is a
  parameter of the model (for Python it is round-to-nearest on binary64 with overflow to
  an infinity).
\<close>

definition is_digit :: "char \<Rightarrow> bool" where
  "is_digit c = (let n = (of_char c :: nat) in 48 \<le> n \<and> n \<le> 57)"

definition digits_value :: "string \<Rightarrow> nat" where
  "digits_value ds = foldl (\<lambda>acc c. 10 * acc + (of_char c - 48)) 0 ds"

definition unsigned_value :: "string \<Rightarrow> rat option" where
  "unsigned_value s =
     (let ip = takeWhile is_digit s; rest = dropWhile is_digit s in
      case rest of
        [] \<Rightarrow> if ip = [] then None else Some (of_nat (digits_value ip))
      | c # fp \<Rightarrow>
          if c = CHR ''.'' \<and> list_all is_digit fp \<and> (ip \<noteq> [] \<or> fp \<noteq> [])
          then Some (of_nat (digits_value ip) + of_nat (digits_value fp) / 10 ^ length fp)
          else None)"

definition decimal_value :: "string \<Rightarrow> rat option" where
  "decimal_value s =
     (case s of
        [] \<Rightarrow> None
      | c # r \<Rightarrow> if c = CHR ''-'' then map_option uminus (unsigned_value r)
                 else unsigned_value s)"

definition py_float :: "(rat \<Rightarrow> pyfloat) \<Rightarrow> string \<Rightarrow> error + pyfloat" where
  "py_float rnd s = (case decimal_value s of None \<Rightarrow> Inl ValueError | Some q \<Rightarrow> Inr (rnd q))"

section \<open>The regular expressions of the program\<close>

text \<open>
  The patterns of the program use literals, repetition of one-character classes
  (greedy \<open>+\<close> and \<open>*\<close>, lazy \<open>*?\<close>), capture groups and one optional non-capturing
  group. A pattern is the list of its items; \<open>Open g\<close> and \<open>Close g\<close> mark capture
  group \<open>g\<close>.
\<close>

datatype cls = Space | NonSpace | Num | NonQuote | AnyChar

definition is_space :: "char \<Rightarrow> bool" where
  "is_space c = (let n = (of_char c :: nat) in
     (9 \<le> n \<and> n \<le> 13) \<or> (28 \<le> n \<and> n \<le> 32) \<or> n = 133 \<or> n = 160)"

fun in_cls :: "cls \<Rightarrow> char \<Rightarrow> bool" where
  "in_cls Space c = is_space c"
| "in_cls NonSpace c = (\<not> is_space c)"
| "in_cls Num c = (c = CHR ''-'' \<or> is_digit c \<or> c = CHR ''.'')"
| "in_cls NonQuote c = (c \<noteq> CHR 0x22)"
| "in_cls AnyChar c = True"

datatype tok = Lit string | Plus cls | Star cls | LazyStar cls
  | Open nat | Close nat | Opt "tok list"

fun tok_size :: "tok \<Rightarrow> nat" where
  "tok_size (Opt ts) = Suc (sum_list (map tok_size ts))"
| "tok_size _ = 1"

type_synonym groups = "(nat \<times> string) list"

text \<open>
  Backtracking matcher, anchored at the start of \<open>s\<close>. It tries the alternatives in the
  order of Python's \<open>re\<close> (greedy: one more character first; lazy: the rest of the
  pattern first; optional group: the group first) and returns the first success: the text
  left after the match and the captured groups. \<open>marks\<close> holds, for each group that is
  open, the text that was left when it opened.
\<close>

function rmatch :: "tok list \<Rightarrow> string \<Rightarrow> groups \<Rightarrow> groups \<Rightarrow> (string \<times> groups) option" where
  "rmatch [] s marks caps = Some (s, caps)"
| "rmatch (Lit l # ts) s marks caps =
     (if prefix l s then rmatch ts (drop (length l) s) marks caps else None)"
| "rmatch (Plus c # ts) s marks caps =
     (case s of
        [] \<Rightarrow> None
      | x # xs \<Rightarrow> if in_cls c x then rmatch (Star c # ts) xs marks caps else None)"
| "rmatch (Star c # ts) s marks caps =
     (case s of
        [] \<Rightarrow> rmatch ts s marks caps
      | x # xs \<Rightarrow>
          if in_cls c x
          then (case rmatch (Star c # ts) xs marks caps of
                  Some r \<Rightarrow> Some r
                | None \<Rightarrow> rmatch ts s marks caps)
          else rmatch ts s marks caps)"
| "rmatch (LazyStar c # ts) s marks caps =
     (case rmatch ts s marks caps of
        Some r \<Rightarrow> Some r
      | None \<Rightarrow>
          (case s of
             [] \<Rightarrow> None
           | x # xs \<Rightarrow> if in_cls c x then rmatch (LazyStar c # ts) xs marks caps else None))"
| "rmatch (Open g # ts) s marks caps = rmatch ts s (AList.update g s marks) caps"
| "rmatch (Close g # ts) s marks caps =
     (case map_of marks g of
        None \<Rightarrow> None
      | Some s0 \<Rightarrow> rmatch ts s marks (AList.update g (take (length s0 - length s) s0) caps))"
| "rmatch (Opt body # ts) s marks caps =
     (case rmatch (body @ ts) s marks caps of
        Some r \<Rightarrow> Some r
      | None \<Rightarrow> rmatch ts s marks caps)"
  by pat_completeness auto
termination
  by (relation "(\<lambda>(ts, s, m, c). sum_list (map tok_size ts)) <*mlex*>
                measure (\<lambda>(ts, s, m, c). length s)")
     (auto simp: wf_mlex mlex_less mlex_leq)

text \<open>\<open>re.match\<close>: a match at the start of the text.\<close>

definition re_match :: "tok list \<Rightarrow> string \<Rightarrow> (string \<times> groups) option" where
  "re_match ts s = rmatch ts s [] []"

text \<open>\<open>re.search\<close>: the match at the leftmost position where there is one.\<close>

fun re_search :: "tok list \<Rightarrow> string \<Rightarrow> (string \<times> groups) option" where
  "re_search ts [] = re_match ts []"
| "re_search ts (x # xs) =
     (case re_match ts (x # xs) of Some r \<Rightarrow> Some r | None \<Rightarrow> re_search ts xs)"

text \<open>
  \<open>finditer\<close> / \<open>findall\<close>: the successive non-overlapping matches, each search
  starting where the previous match ended. Every pattern the program iterates starts with
  a literal, so a match is never empty; the scan stops if a match consumed nothing.
\<close>

function finditer :: "tok list \<Rightarrow> string \<Rightarrow> groups list" where
  "finditer ts s =
     (case re_search ts s of
        None \<Rightarrow> []
      | Some (rest, caps) \<Rightarrow>
          caps # (if length rest < length s then finditer ts rest else []))"
  by pat_completeness auto
termination
  by (relation "measure (\<lambda>(ts, s). length s)") auto

declare finditer.simps [simp del]

text \<open>\<open>m.group(g)\<close>: \<open>None\<close> when the group took no part in the match.\<close>

definition group :: "groups \<Rightarrow> nat \<Rightarrow> string option" where
  "group caps g = map_of caps g"

definition quote :: string where
  "quote = [CHR 0x22]"

definition id_regex :: "tok list" where
  "id_regex = [Lit ''(symbol'', Plus Space, Lit quote, Open 1, Plus NonQuote, Close 1, Lit quote]"

definition pin_regex :: "tok list" where
  "pin_regex =
     [Lit ''(pin'', Plus Space, Open 1, Plus NonSpace, Close 1, Plus Space, Plus NonSpace,
      Star Space, LazyStar AnyChar,
      Lit ''(at'', Plus Space, Open 2, Plus Num, Close 2, Plus Space, Open 3, Plus Num, Close 3,
      Opt [Plus Space, Open 4, Plus Num, Close 4], Lit '')'', LazyStar AnyChar,
      Lit ''(name'', Plus Space, Lit quote, Open 5, Plus NonQuote, Close 5, Lit quote, Lit '')'',
      LazyStar AnyChar,
      Lit ''(number'', Plus Space, Lit quote, Open 6, Plus NonQuote, Close 6, Lit quote]"

definition rect_regex :: "tok list" where
  "rect_regex =
     [Lit ''(rectangle'', Plus Space,
      Lit ''(start'', Plus Space, Open 1, Plus Num, Close 1, Plus Space,
      Open 2, Plus Num, Close 2, Lit '')'', Plus Space,
      Lit ''(end'', Plus Space, Open 3, Plus Num, Close 3, Plus Space,
      Open 4, Plus Num, Close 4, Lit '')'']"

definition polyline_regex :: "tok list" where
  "polyline_regex =
     [Lit ''(polyline'', Plus Space, Lit ''(pts'', Open 1, LazyStar AnyChar, Close 1, Lit ''))'']"

definition xy_regex :: "tok list" where
  "xy_regex =
     [Lit ''(xy'', Plus Space, Open 1, Plus Num, Close 1, Plus Space,
      Open 2, Plus Num, Close 2, Lit '')'']"

definition extends_regex :: "tok list" where
  "extends_regex =
     [Lit ''(extends'', Plus Space, Lit quote, Open 1, Plus NonQuote, Close 1, Lit quote, Lit '')'']"

section \<open>Errors\<close>

text \<open>
  A \<open>ValueError\<close> raised by \<open>float()\<close> is not caught anywhere in the program: it ends
  the run. A computation that can raise returns \<open>Inl\<close> of the error.
\<close>

fun bind_err :: "error + 'a \<Rightarrow> ('a \<Rightarrow> error + 'b) \<Rightarrow> error + 'b" where
  "bind_err (Inl e) f = Inl e"
| "bind_err (Inr a) f = f a"

fun traverse :: "('a \<Rightarrow> error + 'b) \<Rightarrow> 'a list \<Rightarrow> error + 'b list" where
  "traverse f [] = Inr []"
| "traverse f (a # as) =
     bind_err (f a) (\<lambda>b. bind_err (traverse f as) (\<lambda>bs. Inr (b # bs)))"

fun fold_err :: "('a \<Rightarrow> 's \<Rightarrow> error + 's) \<Rightarrow> 'a list \<Rightarrow> 's \<Rightarrow> error + 's" where
  "fold_err f [] acc = Inr acc"
| "fold_err f (a # as) acc = bind_err (f a acc) (fold_err f as)"

section \<open>The data of the index\<close>

record pin =
  electrical_type :: string
  pin_x :: pyfloat
  pin_y :: pyfloat
  orientation :: pyfloat
  pin_name :: string
  pin_number :: string

record bounding_box =
  minX :: pyfloat
  maxX :: pyfloat
  minY :: pyfloat
  maxY :: pyfloat

record symbol =
  sym_id :: string
  pins :: "pin list"
  bbox :: "bounding_box option"
  extends :: "string option"
  kicad_sym_raw :: string

text \<open>
  A Python \<open>dict\<close> keeps its keys in insertion order, and \<open>resolve_inheritance\<close>
  visits them in that order: the index is an association list. \<open>d[k] = v\<close> is
  \<^const>\<open>AList.update\<close>: the value is replaced in place when \<open>k\<close> is present, the pair is
  appended otherwise.
\<close>

type_synonym index = "(string \<times> symbol) list"

section \<open>\<open>parse_symbol_block\<close>\<close>

text \<open>The text of a group that takes part in every match of its pattern.\<close>

definition group_text :: "groups \<Rightarrow> nat \<Rightarrow> string" where
  "group_text m g = (case group m g of None \<Rightarrow> [] | Some t \<Rightarrow> t)"

text \<open>The dictionary built for one match of \<open>pin_regex\<close> (lines 85 to 92).\<close>

definition pin_of_match :: "(rat \<Rightarrow> pyfloat) \<Rightarrow> groups \<Rightarrow> error + pin" where
  "pin_of_match rnd m =
     bind_err (py_float rnd (group_text m 2)) (\<lambda>vx.
     bind_err (py_float rnd (group_text m 3)) (\<lambda>vy.
     bind_err (case group m 4 of
                 None \<Rightarrow> Inr (Finite 0)
               | Some t \<Rightarrow> if t = [] then Inr (Finite 0) else py_float rnd t) (\<lambda>vo.
     Inr \<lparr>electrical_type = group_text m 1, pin_x = vx, pin_y = float_neg vy,
          orientation = vo, pin_name = group_text m 5, pin_number = group_text m 6\<rparr>)))"

text \<open>The pins of a block, in the order of the matches (lines 78 to 92).\<close>

definition parse_pins :: "(rat \<Rightarrow> pyfloat) \<Rightarrow> string \<Rightarrow> error + pin list" where
  "parse_pins rnd block = traverse (pin_of_match rnd) (finditer pin_regex block)"

text \<open>The box of the rectangle match (lines 98 to 104).\<close>

definition rect_bbox :: "(rat \<Rightarrow> pyfloat) \<Rightarrow> groups \<Rightarrow> error + bounding_box" where
  "rect_bbox rnd m =
     bind_err (py_float rnd (group_text m 1)) (\<lambda>x1.
     bind_err (py_float rnd (group_text m 2)) (\<lambda>y1.
     bind_err (py_float rnd (group_text m 3)) (\<lambda>x2.
     bind_err (py_float rnd (group_text m 4)) (\<lambda>y2.
     Inr \<lparr>minX = py_min x1 x2, maxX = py_max x1 x2,
          minY = py_min y1 y2, maxY = py_max y1 y2\<rparr>))))"

text \<open>
  The running minima and maxima over the points of the polylines (lines 107 to 116); the
  accumulator is \<open>(minX, maxX, minY, maxY)\<close>.
\<close>

type_synonym extent = "pyfloat \<times> pyfloat \<times> pyfloat \<times> pyfloat"

definition xy_step :: "(rat \<Rightarrow> pyfloat) \<Rightarrow> groups \<Rightarrow> extent \<Rightarrow> error + extent" where
  "xy_step rnd m acc =
     bind_err (py_float rnd (group_text m 1)) (\<lambda>x.
     bind_err (py_float rnd (group_text m 2)) (\<lambda>y.
     (case acc of (mnX, mxX, mnY, mxY) \<Rightarrow>
        Inr (py_min mnX x, py_max mxX x, py_min mnY y, py_max mxY y))))"

definition polyline_step :: "(rat \<Rightarrow> pyfloat) \<Rightarrow> groups \<Rightarrow> extent \<Rightarrow> error + extent" where
  "polyline_step rnd pl acc = fold_err (xy_step rnd) (finditer xy_regex (group_text pl 1)) acc"

definition polyline_bbox :: "(rat \<Rightarrow> pyfloat) \<Rightarrow> string \<Rightarrow> error + bounding_box option" where
  "polyline_bbox rnd block =
     bind_err (fold_err (polyline_step rnd) (finditer polyline_regex block) (PInf, MInf, PInf, MInf))
       (\<lambda>(mnX, mxX, mnY, mxY).
          Inr (if mnX \<noteq> PInf
               then Some \<lparr>minX = mnX, maxX = mxX, minY = mnY, maxY = mxY\<rparr>
               else None))"

text \<open>The bounding box of a block (lines 94 to 116).\<close>

definition parse_bbox :: "(rat \<Rightarrow> pyfloat) \<Rightarrow> string \<Rightarrow> error + bounding_box option" where
  "parse_bbox rnd block =
     (case re_search rect_regex block of
        Some (rest, rect_m) \<Rightarrow> bind_err (rect_bbox rnd rect_m) (\<lambda>b. Inr (Some b))
      | None \<Rightarrow> polyline_bbox rnd block)"

text \<open>The base reference of a block (lines 119 and 120).\<close>

definition parse_extends :: "string \<Rightarrow> string option" where
  "parse_extends block =
     (case re_search extends_regex block of Some (rest, m) \<Rightarrow> group m 1 | None \<Rightarrow> None)"

definition parse_symbol_block :: "(rat \<Rightarrow> pyfloat) \<Rightarrow> string \<Rightarrow> string \<Rightarrow> error + symbol" where
  "parse_symbol_block rnd symbol_id block =
     bind_err (parse_pins rnd block) (\<lambda>ps.
     bind_err (parse_bbox rnd block) (\<lambda>bb.
     Inr \<lparr>sym_id = symbol_id, pins = ps, bbox = bb, extends = parse_extends block,
          kicad_sym_raw = block\<rparr>))"

section \<open>\<open>parse_kicad_sym\<close>\<close>

text \<open>
  The inner loop (lines 51 to 59), started at the opening marker with \<open>depth = 0\<close>: the
  number of characters it moves \<open>i\<close> forward over the text \<open>content[i:]\<close>. It stops
  after the closing parenthesis that brings \<open>depth\<close> to 0, or at the end of the text.
\<close>

fun scan_block :: "string \<Rightarrow> int \<Rightarrow> nat" where
  "scan_block [] depth = 0"
| "scan_block (c # cs) depth =
     (if c = CHR ''('' then Suc (scan_block cs (depth + 1))
      else if c = CHR '')'' then
        (if depth - 1 = 0 then 1 else Suc (scan_block cs (depth - 1)))
      else Suc (scan_block cs depth))"

text \<open>
  The outer loop (lines 47 to 70) on \<open>s = content[i:]\<close> and the dictionary built so far.
\<close>

function parse_loop :: "(rat \<Rightarrow> pyfloat) \<Rightarrow> string \<Rightarrow> index \<Rightarrow> error + index" where
  "parse_loop rnd s symbols =
     (if s = [] then Inr symbols
      else if prefix ''(symbol'' s then
        (let n = scan_block s 0; block = take n s; rest = drop n s in
         case re_match id_regex block of
           None \<Rightarrow> parse_loop rnd rest symbols
         | Some (after, m) \<Rightarrow>
             (let symbol_id = group_text m 1 in
              case parse_symbol_block rnd symbol_id block of
                Inl e \<Rightarrow> Inl e
              | Inr entry \<Rightarrow> parse_loop rnd rest (AList.update symbol_id entry symbols)))
      else parse_loop rnd (tl s) symbols)"
  by pat_completeness auto
termination
  by (relation "measure (\<lambda>(rnd, s, symbols). length s)") (auto simp: neq_Nil_conv)

declare parse_loop.simps [simp del]

definition parse_kicad_sym :: "(rat \<Rightarrow> pyfloat) \<Rightarrow> string \<Rightarrow> error + index" where
  "parse_kicad_sym rnd content = parse_loop rnd content []"

text \<open>The values the variable \<open>block\<close> takes at line 60, in the order of the scan.\<close>

function scan_blocks :: "string \<Rightarrow> string list" where
  "scan_blocks s =
     (if s = [] then []
      else if prefix ''(symbol'' s then
        (let n = scan_block s 0 in take n s # scan_blocks (drop n s))
      else scan_blocks (tl s))"
  by pat_completeness auto
termination
  by (relation "measure length") (auto simp: neq_Nil_conv)

declare scan_blocks.simps [simp del]

text \<open>
  What the loop does with one block (lines 62 to 68): the identifier read at the start of
  the block, and the dictionary after the block. A block without identifier leaves the
  dictionary as it is.
\<close>

definition block_id :: "string \<Rightarrow> string option" where
  "block_id block =
     (case re_match id_regex block of None \<Rightarrow> None | Some (after, m) \<Rightarrow> Some (group_text m 1))"

definition store_block :: "(rat \<Rightarrow> pyfloat) \<Rightarrow> string \<Rightarrow> index \<Rightarrow> error + index" where
  "store_block rnd block symbols =
     (case block_id block of
        None \<Rightarrow> Inr symbols
      | Some symbol_id \<Rightarrow>
          (case parse_symbol_block rnd symbol_id block of
             Inl e \<Rightarrow> Inl e
           | Inr entry \<Rightarrow> Inr (AList.update symbol_id entry symbols)))"

section \<open>\<open>resolve_inheritance\<close>\<close>

text \<open>
  One iteration of the loop of lines 133 to 139, for the key \<open>sym_id\<close>, on the
  dictionary as the iterations before it left it. The assignments of lines 136 to 139
  (\<open>inherit\<close>) replace fields of the entry stored under \<open>sym_id\<close>; no key is added
  or removed.
\<close>

definition inherit :: "symbol \<Rightarrow> symbol \<Rightarrow> symbol" where
  "inherit symb base =
     (let sym1 = (if pins symb = [] then symb\<lparr>pins := pins base\<rparr> else symb);
          sym2 = (if bbox sym1 = None then sym1\<lparr>bbox := bbox base\<rparr> else sym1)
      in sym2)"

definition resolve_step :: "string \<Rightarrow> index \<Rightarrow> index" where
  "resolve_step k symbols =
     (case map_of symbols k of
        None \<Rightarrow> symbols
      | Some symb \<Rightarrow>
          (case extends symb of
             None \<Rightarrow> symbols
           | Some b \<Rightarrow>
               if b = [] then symbols
               else (case map_of symbols b of
                       None \<Rightarrow> symbols
                     | Some base \<Rightarrow> AList.update k (inherit symb base) symbols)))"

text \<open>
  What one iteration makes of the entry \<open>symb\<close> stored under its key, reading the
  dictionary \<open>symbols\<close>: the entry itself when it has no base or the base is not a key.
\<close>

definition fill :: "index \<Rightarrow> symbol \<Rightarrow> symbol" where
  "fill symbols symb =
     (case extends symb of
        None \<Rightarrow> symb
      | Some b \<Rightarrow>
          if b = [] then symb
          else (case map_of symbols b of None \<Rightarrow> symb | Some base \<Rightarrow> inherit symb base))"

definition resolve_inheritance :: "index \<Rightarrow> index" where
  "resolve_inheritance symbols = fold resolve_step (map fst symbols) symbols"

section \<open>\<open>main\<close>\<close>

text \<open>\<open>all_symbols.update(symbols)\<close>: the pairs of \<open>symbols\<close> are stored in their order.\<close>

definition dict_update :: "index \<Rightarrow> index \<Rightarrow> index" where
  "dict_update all_symbols symbols = fold (\<lambda>(k, v). AList.update k v) symbols all_symbols"

text \<open>The loop of lines 148 to 152 over the contents of the files, in their order.\<close>

fun merge_files :: "(rat \<Rightarrow> pyfloat) \<Rightarrow> string list \<Rightarrow> index \<Rightarrow> error + index" where
  "merge_files rnd [] all_symbols = Inr all_symbols"
| "merge_files rnd (content # fs) all_symbols =
     (case parse_kicad_sym rnd content of
        Inl e \<Rightarrow> Inl e
      | Inr symbols \<Rightarrow> merge_files rnd fs (dict_update all_symbols symbols))"

text \<open>The index that \<open>main\<close> writes out (lines 147 to 156).\<close>

definition main_index :: "(rat \<Rightarrow> pyfloat) \<Rightarrow> string list \<Rightarrow> error + index" where
  "main_index rnd contents =
     (case merge_files rnd contents [] of
        Inl e \<Rightarrow> Inl e
      | Inr all_symbols \<Rightarrow> Inr (resolve_inheritance all_symbols))"

section \<open>The invariant of a bounding box\<close>

definition bbox_ok :: "bounding_box \<Rightarrow> bool" where
  "bbox_ok bb = (minX bb \<le> maxX bb \<and> minY bb \<le> maxY bb)"

definition entry_ok :: "symbol \<Rightarrow> bool" where
  "entry_ok e = (case bbox e of None \<Rightarrow> True | Some bb \<Rightarrow> bbox_ok bb)"

definition extent_ok :: "extent \<Rightarrow> bool" where
  "extent_ok acc = (case acc of (mnX, mxX, mnY, mxY) \<Rightarrow> mnX \<le> mxX \<and> mnY \<le> mxY)"

section \<open>Indexes without multi-level inheritance\<close>

text \<open>
  No entry that is the base of another entry has itself a base that is a key of the index.
\<close>

definition single_level :: "index \<Rightarrow> bool" where
  "single_level symbols =
     list_all (\<lambda>(k, e).
        case extends e of
          None \<Rightarrow> True
        | Some b \<Rightarrow>
            (case map_of symbols b of
               None \<Rightarrow> True
             | Some base \<Rightarrow>
                 (case extends base of None \<Rightarrow> True | Some c \<Rightarrow> map_of symbols c = None)))
       symbols"

section \<open>Example indexes and texts\<close>

text \<open>An entry whose base \<open>R_base\<close> is not in the index, beside a complete entry.\<close>

definition entry_R :: symbol where
  "entry_R = \<lparr>sym_id = ''R'', pins = [], bbox = None, extends = Some ''R_base'',
              kicad_sym_raw = ''(symbol)''\<rparr>"

definition unit_box :: bounding_box where
  "unit_box = \<lparr>minX = Finite 0, maxX = Finite 1, minY = Finite 0, maxY = Finite 1\<rparr>"

definition index_broken_ref :: index where
  "index_broken_ref =
     [(''R'', entry_R),
      (''Q'', \<lparr>sym_id = ''Q'', pins = [], bbox = Some unit_box, extends = None,
               kicad_sym_raw = ''(symbol)''\<rparr>)]"

text \<open>A block with one pin at source position (0, 5).\<close>

definition text_pin :: string where
  \<open>text_pin = ''(symbol "R" (extends "R_base") (pin passive line (at 0 5) (name "1") (number "1")))''\<close>

definition pin_1 :: pin where
  "pin_1 = \<lparr>electrical_type = ''passive'', pin_x = Finite 0, pin_y = Finite (- 5),
            orientation = Finite 0, pin_name = ''1'', pin_number = ''1''\<rparr>"

definition match_pin :: groups where
  "match_pin = [(1, ''passive''), (2, ''0''), (3, ''5''), (5, ''1''), (6, ''1'')]"

text \<open>
  A block with a polyline and then a rectangle whose corners are given from the right to
  the left; a block with two polylines.
\<close>

definition text_rect :: string where
  \<open>text_rect = ''(symbol "U" (polyline (pts (xy -9 -9) (xy 9 9) )) (rectangle (start 5 1) (end -2 3.5)))''\<close>

definition match_rect :: groups where
  "match_rect = [(1, ''5''), (2, ''1''), (3, ''-2''), (4, ''3.5'')]"

definition text_poly :: string where
  \<open>text_poly = ''(symbol "P" (polyline (pts (xy 0 1) (xy 2 -3) )) (polyline (pts (xy 7 7) (xy 1 3) )))''\<close>

definition box_rect :: bounding_box where
  "box_rect = \<lparr>minX = Finite (- 2), maxX = Finite 5, minY = Finite 1, maxY = Finite (7 / 2)\<rparr>"

definition box_poly :: bounding_box where
  "box_poly = \<lparr>minX = Finite 0, maxX = Finite 7, minY = Finite (- 3), maxY = Finite 7\<rparr>"

definition entry_poly :: symbol where
  "entry_poly = \<lparr>sym_id = ''P'', pins = [], bbox = Some box_poly, extends = None,
                  kicad_sym_raw = text_poly\<rparr>"

definition index_inherit_box :: index where
  "index_inherit_box =
     [(''D'', \<lparr>sym_id = ''D'', pins = [], bbox = None, extends = Some ''P'',
               kicad_sym_raw = ''(symbol)''\<rparr>),
      (''P'', entry_poly)]"

text \<open>
  Two texts that define the same identifier \<open>X\<close>: with a rectangle, and without any
  geometry.
\<close>

definition text_x1 :: string where
  \<open>text_x1 = ''(symbol "X" (rectangle (start 0 0) (end 1 1)))''\<close>

definition text_x2 :: string where
  \<open>text_x2 = ''(symbol "X")''\<close>

definition entry_x1 :: symbol where
  "entry_x1 = \<lparr>sym_id = ''X'', pins = [], bbox = Some unit_box, extends = None,
                kicad_sym_raw = text_x1\<rparr>"

definition entry_x2 :: symbol where
  "entry_x2 = \<lparr>sym_id = ''X'', pins = [], bbox = None, extends = None,
                kicad_sym_raw = text_x2\<rparr>"

text \<open>
  A chain of three entries: \<open>A\<close> extends \<open>B\<close>, \<open>B\<close> extends \<open>C\<close>, and only \<open>C\<close>
  has a pin; in two orders of the blocks in the text.
\<close>

definition text_A :: string where
  \<open>text_A = ''(symbol "A" (extends "B"))''\<close>

definition text_B :: string where
  \<open>text_B = ''(symbol "B" (extends "C"))''\<close>

definition text_C :: string where
  \<open>text_C = ''(symbol "C" (pin input line (at 1 2) (name "IN") (number "1")))''\<close>

definition pin_c :: pin where
  "pin_c = \<lparr>electrical_type = ''input'', pin_x = Finite 1, pin_y = Finite (- 2),
            orientation = Finite 0, pin_name = ''IN'', pin_number = ''1''\<rparr>"

definition chain_A :: symbol where
  "chain_A = \<lparr>sym_id = ''A'', pins = [], bbox = None, extends = Some ''B'',
              kicad_sym_raw = text_A\<rparr>"

definition chain_B :: symbol where
  "chain_B = \<lparr>sym_id = ''B'', pins = [], bbox = None, extends = Some ''C'',
              kicad_sym_raw = text_B\<rparr>"

definition chain_C :: symbol where
  "chain_C = \<lparr>sym_id = ''C'', pins = [pin_c], bbox = None, extends = None,
              kicad_sym_raw = text_C\<rparr>"

definition index_BAC :: index where
  "index_BAC = [(''B'', chain_B), (''A'', chain_A), (''C'', chain_C)]"

definition index_ABC :: index where
  "index_ABC = [(''A'', chain_A), (''B'', chain_B), (''C'', chain_C)]"

text \<open>A text that ends inside a block.\<close>

definition text_cut :: string where
  \<open>text_cut = ''(symbol "A" (pin''\<close>

definition entry_cut :: symbol where
  "entry_cut = \<lparr>sym_id = ''A'', pins = [], bbox = None, extends = None, kicad_sym_raw = text_cut\<rparr>"

section \<open>Lemmas on the resolver\<close>

lemma bind_err_Inr: "bind_err m f = Inr b \<longleftrightarrow> (\<exists>a. m = Inr a \<and> f a = Inr b)"
  by (cases m) auto

text \<open>One iteration of the resolver changes one entry and no key.\<close>

lemma resolve_step_keys: "map fst (resolve_step k st) = map fst st"
  unfolding resolve_step_def
  by (auto simp: AList.update_keys split: option.splits dest!: map_of_SomeD
      intro: rev_image_eqI)

lemma resolve_step_dom: "fst ` set (resolve_step k st) = fst ` set st"
  using arg_cong [OF resolve_step_keys [of k st], of set] by simp

lemma resolve_step_other: "k' \<noteq> k \<Longrightarrow> map_of (resolve_step k st) k' = map_of st k'"
  unfolding resolve_step_def
  by (auto simp: AList.update_conv' split: option.splits)

lemma fold_resolve_keys: "map fst (fold resolve_step ks st) = map fst st"
  by (induction ks arbitrary: st) (simp_all add: resolve_step_keys)

lemma fold_resolve_other:
  "k' \<notin> set ks \<Longrightarrow> map_of (fold resolve_step ks st) k' = map_of st k'"
  by (induction ks arbitrary: st) (simp_all add: resolve_step_other)

lemma resolve_step_absent_base:
  assumes "map_of st k = Some e" "extends e = Some b" "b \<notin> fst ` set st"
  shows "map_of (resolve_step k' st) k = Some e"
proof (cases "k' = k")
  case True
  from assms(3) have "map_of st b = None" by (simp add: map_of_eq_None_iff)
  with assms(1,2) True show ?thesis by (simp add: resolve_step_def)
next
  case False
  then show ?thesis using assms(1) by (simp add: resolve_step_other)
qed

lemma fold_resolve_absent_base:
  "map_of st k = Some e \<Longrightarrow> extends e = Some b \<Longrightarrow> b \<notin> fst ` set st
   \<Longrightarrow> map_of (fold resolve_step ks st) k = Some e"
proof (induction ks arbitrary: st)
  case Nil
  then show ?case by simp
next
  case (Cons k' ks)
  have "map_of (resolve_step k' st) k = Some e"
    using Cons.prems by (rule resolve_step_absent_base)
  moreover have "b \<notin> fst ` set (resolve_step k' st)"
    using Cons.prems(3) by (simp add: resolve_step_dom)
  ultimately show ?case using Cons.IH Cons.prems(2) by simp
qed

section \<open>Broken base references\<close>

text \<open>
  Claim C8. For every index and every entry whose \<open>extends\<close> identifier is not a key
  of the index, inheritance resolution leaves the entry as it was: the index after
  \<open>resolve_inheritance\<close> holds the same entry under the same key, so a pin list that
  was empty is still empty and a bounding box that was unset is still unset.
\<close>

theorem broken_reference_unchanged:
  assumes "map_of symbols k = Some e" and "extends e = Some b" and "b \<notin> fst ` set symbols"
  shows "map_of (resolve_inheritance symbols) k = Some e"
  using fold_resolve_absent_base [of symbols k e b "map fst symbols"] assms
  by (simp add: resolve_inheritance_def)

theorem broken_reference_unchanged_witness:
  "map_of index_broken_ref ''R'' = Some entry_R
   \<and> extends entry_R = Some ''R_base''
   \<and> ''R_base'' \<notin> fst ` set index_broken_ref
   \<and> map_of (resolve_inheritance index_broken_ref) ''R'' = Some entry_R
   \<and> pins entry_R = [] \<and> bbox entry_R = None"
proof -
  have h1: "map_of index_broken_ref ''R'' = Some entry_R"
    by (simp add: index_broken_ref_def)
  have h2: "extends entry_R = Some ''R_base''"
    by (simp add: entry_R_def)
  have h3: "''R_base'' \<notin> fst ` set index_broken_ref"
    by (simp add: index_broken_ref_def)
  have h4: "pins entry_R = [] \<and> bbox entry_R = None"
    by (simp add: entry_R_def)
  from broken_reference_unchanged [OF h1 h2 h3] h1 h2 h3 h4 show ?thesis by simp
qed

section \<open>Lemmas on floats, boxes and pins\<close>

lemma le_PInf: "a \<le> PInf"
  by (cases a) (simp_all add: less_eq_pyfloat_def)

lemma MInf_le: "MInf \<le> a"
  by (cases a) (simp_all add: less_eq_pyfloat_def)

lemma py_min_eq: "py_min a b = min a b"
  by (auto simp: py_min_def min_def)

lemma py_max_eq: "py_max a b = max a b"
  by (auto simp: py_max_def max_def)

lemma rect_bbox_ok: "rect_bbox rnd m = Inr bb \<Longrightarrow> bbox_ok bb"
  by (auto simp: rect_bbox_def bind_err_Inr bbox_ok_def py_min_eq py_max_eq
      min_le_iff_disj le_max_iff_disj)

lemma xy_step_ok:
  assumes "xy_step rnd m acc = Inr acc'" and "acc = (PInf, MInf, PInf, MInf) \<or> extent_ok acc"
  shows "extent_ok acc'"
proof -
  obtain a b c d where acc: "acc = (a, b, c, d)" by (cases acc) auto
  from assms(1) obtain x y where
    acc': "acc' = (min a x, max b x, min c y, max d y)"
    by (auto simp: xy_step_def bind_err_Inr acc py_min_eq py_max_eq)
  from assms(2) show ?thesis
  proof
    assume "acc = (PInf, MInf, PInf, MInf)"
    with acc have "a = PInf" "b = MInf" "c = PInf" "d = MInf" by simp_all
    then show ?thesis
      by (simp add: acc' extent_ok_def min_absorb2 max_absorb2 le_PInf MInf_le)
  next
    assume "extent_ok acc"
    with acc have "a \<le> b" "c \<le> d" by (simp_all add: extent_ok_def)
    then show ?thesis
      by (simp add: acc' extent_ok_def min_le_iff_disj le_max_iff_disj)
  qed
qed

lemma fold_xy_ok:
  "fold_err (xy_step rnd) ms acc = Inr acc' \<Longrightarrow>
   acc = (PInf, MInf, PInf, MInf) \<or> extent_ok acc \<Longrightarrow>
   acc' = (PInf, MInf, PInf, MInf) \<or> extent_ok acc'"
proof (induction ms arbitrary: acc)
  case Nil
  then show ?case by auto
next
  case (Cons m ms)
  from Cons.prems(1) obtain acc1 where
    s1: "xy_step rnd m acc = Inr acc1" and s2: "fold_err (xy_step rnd) ms acc1 = Inr acc'"
    by (auto simp: bind_err_Inr)
  from xy_step_ok [OF s1 Cons.prems(2)] have "extent_ok acc1" .
  with Cons.IH [OF s2] show ?case by simp
qed

lemma fold_polyline_ok:
  "fold_err (polyline_step rnd) pls acc = Inr acc' \<Longrightarrow>
   acc = (PInf, MInf, PInf, MInf) \<or> extent_ok acc \<Longrightarrow>
   acc' = (PInf, MInf, PInf, MInf) \<or> extent_ok acc'"
proof (induction pls arbitrary: acc)
  case Nil
  then show ?case by auto
next
  case (Cons pl pls)
  from Cons.prems(1) obtain acc1 where
    s1: "polyline_step rnd pl acc = Inr acc1"
    and s2: "fold_err (polyline_step rnd) pls acc1 = Inr acc'"
    by (auto simp: bind_err_Inr)
  from s1 Cons.prems(2) have "acc1 = (PInf, MInf, PInf, MInf) \<or> extent_ok acc1"
    unfolding polyline_step_def by (rule fold_xy_ok)
  with Cons.IH [OF s2] show ?case by simp
qed

lemma polyline_bbox_ok: "polyline_bbox rnd block = Inr (Some bb) \<Longrightarrow> bbox_ok bb"
proof -
  assume a: "polyline_bbox rnd block = Inr (Some bb)"
  then obtain acc where
    f: "fold_err (polyline_step rnd) (finditer polyline_regex block) (PInf, MInf, PInf, MInf) = Inr acc"
    and r: "(case acc of (mnX, mxX, mnY, mxY) \<Rightarrow>
              Inr (if mnX \<noteq> PInf
                   then Some \<lparr>minX = mnX, maxX = mxX, minY = mnY, maxY = mxY\<rparr>
                   else None)) = (Inr (Some bb) :: error + bounding_box option)"
    by (auto simp: polyline_bbox_def bind_err_Inr)
  from fold_polyline_ok [OF f] have "acc = (PInf, MInf, PInf, MInf) \<or> extent_ok acc" by simp
  with r show ?thesis
    by (cases acc) (auto simp: extent_ok_def bbox_ok_def split: if_splits)
qed

lemma parse_bbox_ok: "parse_bbox rnd block = Inr (Some bb) \<Longrightarrow> bbox_ok bb"
  by (auto simp: parse_bbox_def bind_err_Inr split: option.splits
      dest: rect_bbox_ok polyline_bbox_ok)

lemma parse_symbol_block_ok: "parse_symbol_block rnd symbol_id block = Inr e \<Longrightarrow> entry_ok e"
  by (auto simp: parse_symbol_block_def bind_err_Inr entry_ok_def split: option.splits
      dest: parse_bbox_ok)

lemma update_set:
  "(k', v') \<in> set (AList.update k v al) \<Longrightarrow> (k', v') = (k, v) \<or> (k', v') \<in> set al"
  by (induction al) (auto split: if_splits)

lemma resolve_step_ok:
  assumes "\<forall>(k, e) \<in> set st. entry_ok e"
  shows "\<forall>(k, e) \<in> set (resolve_step k0 st). entry_ok e"
  using assms unfolding resolve_step_def
  by (auto simp: inherit_def Let_def entry_ok_def split: option.splits if_splits
      dest!: update_set map_of_SomeD)

lemma fold_resolve_ok:
  "\<forall>(k, e) \<in> set st. entry_ok e \<Longrightarrow> \<forall>(k, e) \<in> set (fold resolve_step ks st). entry_ok e"
proof (induction ks arbitrary: st)
  case Nil
  then show ?case by simp
next
  case (Cons k ks)
  from Cons.IH [OF resolve_step_ok [OF Cons.prems]] show ?case by simp
qed

lemma traverse_all2:
  "traverse f xs = Inr ys \<Longrightarrow> list_all2 (\<lambda>x y. f x = Inr y) xs ys"
proof (induction xs arbitrary: ys)
  case Nil
  then show ?case by simp
next
  case (Cons x xs)
  from Cons.prems obtain y ys' where "f x = Inr y" "traverse f xs = Inr ys'" "ys = y # ys'"
    by (auto simp: bind_err_Inr)
  with Cons.IH show ?case by simp
qed

lemma pin_of_match_xy:
  assumes "pin_of_match rnd m = Inr p"
  shows "py_float rnd (group_text m 2) = Inr (pin_x p)
         \<and> (\<exists>v. py_float rnd (group_text m 3) = Inr v \<and> pin_y p = float_neg v)"
  using assms by (auto simp: pin_of_match_def bind_err_Inr)

section \<open>The examples, evaluated\<close>

lemma matches_text_pin: "finditer pin_regex text_pin = [match_pin]"
  by code_simp

lemma parse_text_pin:
  "parse_symbol_block Finite ''R'' text_pin =
     Inr \<lparr>sym_id = ''R'', pins = [pin_1], bbox = None, extends = Some ''R_base'',
          kicad_sym_raw = text_pin\<rparr>"
  by code_simp

lemma search_text_rect: "re_search rect_regex text_rect = Some (''))'', match_rect)"
  by code_simp

lemma parse_text_rect:
  "parse_symbol_block Finite ''U'' text_rect =
     Inr \<lparr>sym_id = ''U'', pins = [], bbox = Some box_rect, extends = None,
          kicad_sym_raw = text_rect\<rparr>"
  by code_simp

lemma parse_text_poly: "parse_symbol_block Finite ''P'' text_poly = Inr entry_poly"
  by code_simp

lemma resolve_index_inherit_box:
  "resolve_inheritance index_inherit_box =
     [(''D'', \<lparr>sym_id = ''D'', pins = [], bbox = Some box_poly, extends = Some ''P'',
               kicad_sym_raw = ''(symbol)''\<rparr>),
      (''P'', entry_poly)]"
  by code_simp

section \<open>Pins\<close>

text \<open>
  Claim C5. The pins of a block are built from the successive matches of the pin pattern,
  one pin per match and in their order. For every match, the pin's \<open>x\<close> is the float
  read from the first coordinate of the position (group 2), unchanged, and the pin's \<open>y\<close>
  is the negation of the float \<open>v\<close> read from the second coordinate (group 3).
\<close>

theorem pin_y_negated:
  assumes "parse_symbol_block rnd symbol_id block = Inr e"
  shows "list_all2
           (\<lambda>m p. py_float rnd (group_text m 2) = Inr (pin_x p)
                \<and> (\<exists>v. py_float rnd (group_text m 3) = Inr v \<and> pin_y p = float_neg v))
           (finditer pin_regex block) (pins e)"
proof -
  from assms have "parse_pins rnd block = Inr (pins e)"
    by (auto simp: parse_symbol_block_def bind_err_Inr)
  then have "list_all2 (\<lambda>m p. pin_of_match rnd m = Inr p) (finditer pin_regex block) (pins e)"
    unfolding parse_pins_def by (rule traverse_all2)
  then show ?thesis
    by (rule list_all2_mono) (rule pin_of_match_xy)
qed

theorem pin_y_negated_witness:
  "parse_symbol_block Finite ''R'' text_pin =
     Inr \<lparr>sym_id = ''R'', pins = [pin_1], bbox = None, extends = Some ''R_base'',
          kicad_sym_raw = text_pin\<rparr>
   \<and> finditer pin_regex text_pin = [match_pin]
   \<and> group_text match_pin 2 = ''0'' \<and> group_text match_pin 3 = ''5''
   \<and> py_float Finite ''0'' = Inr (pin_x pin_1)
   \<and> py_float Finite ''5'' = Inr (Finite 5) \<and> pin_y pin_1 = float_neg (Finite 5)"
proof -
  have g: "group_text match_pin 2 = ''0''" "group_text match_pin 3 = ''5''"
    by (simp_all add: group_text_def group_def match_pin_def)
  have f: "py_float Finite ''5'' = Inr (Finite 5)"
    by code_simp
  from pin_y_negated [OF parse_text_pin] have
    "py_float Finite ''0'' = Inr (pin_x pin_1)
     \<and> (\<exists>v. py_float Finite ''5'' = Inr v \<and> pin_y pin_1 = float_neg v)"
    by (simp add: matches_text_pin g)
  with f have "py_float Finite ''0'' = Inr (pin_x pin_1) \<and> pin_y pin_1 = float_neg (Finite 5)"
    by auto
  with parse_text_pin matches_text_pin g f show ?thesis by simp
qed

section \<open>Bounding boxes\<close>

text \<open>
  Claim C6. When the search for the rectangle pattern succeeds on a block (the rectangle
  it finds is the leftmost one) and its four coordinates are floats \<open>x1\<close>, \<open>y1\<close>, \<open>x2\<close>,
  \<open>y2\<close>, the bounding box of the block is the envelope of the two corners:
  \<open>minX = min x1 x2\<close>, \<open>maxX = max x1 x2\<close>, \<open>minY = min y1 y2\<close>, \<open>maxY = max y1 y2\<close>,
  whichever corner comes first. Polylines of the block play no part: the statement holds
  for every block, whatever else it contains. The entry returned for the block carries that
  box (the entry is returned when the pins of the block can be read).
\<close>

theorem rectangle_bbox:
  assumes "re_search rect_regex block = Some (rest, rect_m)"
    and "py_float rnd (group_text rect_m 1) = Inr x1"
    and "py_float rnd (group_text rect_m 2) = Inr y1"
    and "py_float rnd (group_text rect_m 3) = Inr x2"
    and "py_float rnd (group_text rect_m 4) = Inr y2"
  shows "parse_bbox rnd block =
           Inr (Some \<lparr>minX = min x1 x2, maxX = max x1 x2, minY = min y1 y2, maxY = max y1 y2\<rparr>)
         \<and> (\<forall>ps. parse_pins rnd block = Inr ps \<longrightarrow>
               parse_symbol_block rnd symbol_id block =
                 Inr \<lparr>sym_id = symbol_id, pins = ps,
                      bbox = Some \<lparr>minX = min x1 x2, maxX = max x1 x2,
                                    minY = min y1 y2, maxY = max y1 y2\<rparr>,
                      extends = parse_extends block, kicad_sym_raw = block\<rparr>)"
proof -
  have "rect_bbox rnd rect_m =
          Inr \<lparr>minX = min x1 x2, maxX = max x1 x2, minY = min y1 y2, maxY = max y1 y2\<rparr>"
    using assms(2-5) by (simp add: rect_bbox_def py_min_eq py_max_eq)
  with assms(1) have b: "parse_bbox rnd block =
    Inr (Some \<lparr>minX = min x1 x2, maxX = max x1 x2, minY = min y1 y2, maxY = max y1 y2\<rparr>)"
    by (simp add: parse_bbox_def)
  then show ?thesis
    by (simp add: parse_symbol_block_def)
qed

theorem rectangle_bbox_witness:
  "re_search rect_regex text_rect = Some (''))'', match_rect)
   \<and> py_float Finite (group_text match_rect 1) = Inr (Finite 5)
   \<and> py_float Finite (group_text match_rect 2) = Inr (Finite 1)
   \<and> py_float Finite (group_text match_rect 3) = Inr (Finite (- 2))
   \<and> py_float Finite (group_text match_rect 4) = Inr (Finite (7 / 2))
   \<and> parse_pins Finite text_rect = Inr []
   \<and> parse_bbox Finite text_rect = Inr (Some box_rect)
   \<and> parse_symbol_block Finite ''U'' text_rect =
       Inr \<lparr>sym_id = ''U'', pins = [], bbox = Some box_rect, extends = parse_extends text_rect,
            kicad_sym_raw = text_rect\<rparr>"
proof -
  have h1: "py_float Finite (group_text match_rect 1) = Inr (Finite 5)" by code_simp
  have h2: "py_float Finite (group_text match_rect 2) = Inr (Finite 1)" by code_simp
  have h3: "py_float Finite (group_text match_rect 3) = Inr (Finite (- 2))" by code_simp
  have h4: "py_float Finite (group_text match_rect 4) = Inr (Finite (7 / 2))" by code_simp
  have h5: "parse_pins Finite text_rect = Inr []" by code_simp
  have mm: "min (Finite 5) (Finite (- 2)) = Finite (- 2)" "max (Finite 5) (Finite (- 2)) = Finite 5"
    "min (Finite 1) (Finite (7 / 2)) = Finite 1" "max (Finite 1) (Finite (7 / 2)) = Finite (7 / 2)"
    by (simp_all add: min_def max_def less_eq_pyfloat_def)
  from rectangle_bbox [OF search_text_rect h1 h2 h3 h4, of "''U''"] h5
  have "parse_bbox Finite text_rect = Inr (Some box_rect)
        \<and> parse_symbol_block Finite ''U'' text_rect =
            Inr \<lparr>sym_id = ''U'', pins = [], bbox = Some box_rect,
                 extends = parse_extends text_rect, kicad_sym_raw = text_rect\<rparr>"
    by (simp add: mm box_rect_def)
  with search_text_rect h1 h2 h3 h4 h5 show ?thesis by simp
qed

text \<open>
  Claim C9. Every bounding box that \<open>parse_symbol_block\<close> puts in an entry, from a
  rectangle or from the points of polylines, has \<open>minX \<le> maxX\<close> and \<open>minY \<le> maxY\<close>;
  and when every entry of an index has such a box or none, so has every entry of the index
  after \<open>resolve_inheritance\<close>.
\<close>

theorem bounding_box_invariant:
  "(parse_symbol_block rnd symbol_id block = Inr e \<and> bbox e = Some bb
      \<longrightarrow> minX bb \<le> maxX bb \<and> minY bb \<le> maxY bb)
   \<and> (list_all (\<lambda>(k, e). entry_ok e) symbols
      \<longrightarrow> list_all (\<lambda>(k, e). entry_ok e) (resolve_inheritance symbols))"
proof (intro conjI impI)
  assume a: "parse_symbol_block rnd symbol_id block = Inr e \<and> bbox e = Some bb"
  then have "entry_ok e" by (auto dest: parse_symbol_block_ok)
  with a show "minX bb \<le> maxX bb" "minY bb \<le> maxY bb"
    by (simp_all add: entry_ok_def bbox_ok_def)
next
  assume "list_all (\<lambda>(k, e). entry_ok e) symbols"
  then have "\<forall>(k, e) \<in> set symbols. entry_ok e" by (simp add: list_all_iff)
  then have "\<forall>(k, e) \<in> set (fold resolve_step (map fst symbols) symbols). entry_ok e"
    by (rule fold_resolve_ok)
  then show "list_all (\<lambda>(k, e). entry_ok e) (resolve_inheritance symbols)"
    by (simp add: list_all_iff resolve_inheritance_def)
qed

theorem bounding_box_invariant_witness:
  "parse_symbol_block Finite ''P'' text_poly = Inr entry_poly \<and> bbox entry_poly = Some box_poly
   \<and> minX box_poly \<le> maxX box_poly \<and> minY box_poly \<le> maxY box_poly
   \<and> list_all (\<lambda>(k, e). entry_ok e) index_inherit_box
   \<and> list_all (\<lambda>(k, e). entry_ok e) (resolve_inheritance index_inherit_box)"
proof -
  have h1: "parse_symbol_block Finite ''P'' text_poly = Inr entry_poly \<and> bbox entry_poly = Some box_poly"
    by (simp add: parse_text_poly) (simp add: entry_poly_def)
  have h2: "list_all (\<lambda>(k, e). entry_ok e) index_inherit_box"
    by (simp add: index_inherit_box_def entry_ok_def entry_poly_def bbox_ok_def box_poly_def
        less_eq_pyfloat_def)
  from bounding_box_invariant [of Finite "''P''" text_poly entry_poly box_poly index_inherit_box]
    h1 h2
  show ?thesis by simp
qed

section \<open>The scan of a text\<close>

text \<open>The loop stores the blocks of the scan one after the other.\<close>

lemma parse_loop_blocks:
  "parse_loop rnd s symbols = fold_err (store_block rnd) (scan_blocks s) symbols"
proof (induction rnd s symbols rule: parse_loop.induct)
  case (1 rnd s symbols)
  show ?case
  proof (cases "s = []")
    case True
    then show ?thesis by (simp add: parse_loop.simps scan_blocks.simps)
  next
    case ne: False
    show ?thesis
    proof (cases "prefix ''(symbol'' s")
      case False
      with ne "1.IH"(3) show ?thesis
        by (simp add: parse_loop.simps [of rnd s] scan_blocks.simps [of s])
    next
      case True
      let ?n = "scan_block s 0"
      show ?thesis
      proof (cases "re_match id_regex (take ?n s)")
        case None
        with ne True "1.IH"(1) [OF ne True refl refl refl None] show ?thesis
          by (simp add: parse_loop.simps [of rnd s] scan_blocks.simps [of s] Let_def
              store_block_def block_id_def)
      next
        case (Some r)
        obtain after m where r: "r = (after, m)" by (cases r)
        show ?thesis
        proof (cases "parse_symbol_block rnd (group_text m 1) (take ?n s)")
          case (Inl e)
          with ne True Some r show ?thesis
            by (simp add: parse_loop.simps [of rnd s] scan_blocks.simps [of s] Let_def
                store_block_def block_id_def)
        next
          case (Inr entry)
          from "1.IH"(2) [OF ne True refl refl refl Some [unfolded r] refl refl Inr]
          show ?thesis using ne True Some r Inr
            by (simp add: parse_loop.simps [of rnd s] scan_blocks.simps [of s] Let_def
                store_block_def block_id_def)
        qed
      qed
    qed
  qed
qed

lemma fold_err_append:
  "fold_err f (xs @ ys) a = bind_err (fold_err f xs a) (fold_err f ys)"
proof (induction xs arbitrary: a)
  case Nil
  then show ?case by simp
next
  case (Cons x xs)
  then show ?case by (cases "f x a") simp_all
qed

lemma parse_symbol_block_id:
  "parse_symbol_block rnd symbol_id block = Inr e \<Longrightarrow> sym_id e = symbol_id"
  by (auto simp: parse_symbol_block_def bind_err_Inr)

lemma store_block_ids:
  assumes "store_block rnd b st = Inr st'" and "\<forall>(k, e) \<in> set st. sym_id e = k"
  shows "\<forall>(k, e) \<in> set st'. sym_id e = k"
  using assms
  by (auto simp: store_block_def split: option.splits sum.splits
      dest!: update_set dest: parse_symbol_block_id)

lemma fold_store_ids:
  "fold_err (store_block rnd) bs st = Inr st' \<Longrightarrow> \<forall>(k, e) \<in> set st. sym_id e = k
   \<Longrightarrow> \<forall>(k, e) \<in> set st'. sym_id e = k"
proof (induction bs arbitrary: st)
  case Nil
  then show ?case by simp
next
  case (Cons b bs)
  from Cons.prems(1) obtain st1 where
    s1: "store_block rnd b st = Inr st1" and s2: "fold_err (store_block rnd) bs st1 = Inr st'"
    by (auto simp: bind_err_Inr)
  from Cons.IH [OF s2 store_block_ids [OF s1 Cons.prems(2)]] show ?case .
qed

lemma store_block_other:
  "store_block rnd b st = Inr st' \<Longrightarrow> block_id b \<noteq> Some k \<Longrightarrow> map_of st' k = map_of st k"
  by (auto simp: store_block_def AList.update_conv' split: option.splits sum.splits)

lemma fold_store_other:
  "fold_err (store_block rnd) bs st = Inr st' \<Longrightarrow> list_all (\<lambda>b. block_id b \<noteq> Some k) bs
   \<Longrightarrow> map_of st' k = map_of st k"
proof (induction bs arbitrary: st)
  case Nil
  then show ?case by simp
next
  case (Cons b bs)
  from Cons.prems(1) obtain st1 where
    s1: "store_block rnd b st = Inr st1" and s2: "fold_err (store_block rnd) bs st1 = Inr st'"
    by (auto simp: bind_err_Inr)
  from Cons.prems(2) have "block_id b \<noteq> Some k" "list_all (\<lambda>b. block_id b \<noteq> Some k) bs"
    by simp_all
  with Cons.IH [OF s2] store_block_other [OF s1] show ?case by simp
qed

lemma store_block_distinct:
  "store_block rnd b st = Inr st' \<Longrightarrow> distinct (map fst st) \<Longrightarrow> distinct (map fst st')"
  by (auto simp: store_block_def AList.distinct_update split: option.splits sum.splits)

lemma fold_store_distinct:
  "fold_err (store_block rnd) bs st = Inr st' \<Longrightarrow> distinct (map fst st)
   \<Longrightarrow> distinct (map fst st')"
proof (induction bs arbitrary: st)
  case Nil
  then show ?case by simp
next
  case (Cons b bs)
  from Cons.prems(1) obtain st1 where
    s1: "store_block rnd b st = Inr st1" and s2: "fold_err (store_block rnd) bs st1 = Inr st'"
    by (auto simp: bind_err_Inr)
  from Cons.IH [OF s2 store_block_distinct [OF s1 Cons.prems(2)]] show ?case .
qed

lemma parse_kicad_sym_distinct:
  "parse_kicad_sym rnd content = Inr symbols \<Longrightarrow> distinct (map fst symbols)"
  using fold_store_distinct [of rnd "scan_blocks content" "[]" symbols]
  by (simp add: parse_kicad_sym_def parse_loop_blocks)

lemma parse_text_dup:
  "parse_kicad_sym Finite (text_x1 @ '' '' @ text_x2) = Inr [(''X'', entry_x2)]"
  by code_simp

lemma blocks_text_dup: "scan_blocks (text_x1 @ '' '' @ text_x2) = [text_x1] @ text_x2 # []"
  by code_simp

text \<open>
  Claim C10. In the dictionary returned for a text, every entry is stored under its own
  \<open>id\<close>; and the entry stored under an identifier \<open>k\<close> is the one built from the last
  block of the scan that declares \<open>k\<close>: if the blocks of the scan are \<open>pre\<close>, then
  \<open>b\<close>, then \<open>post\<close>, where \<open>b\<close> declares \<open>k\<close> and no block of \<open>post\<close> does, then the
  dictionary holds under \<open>k\<close> the entry built from \<open>b\<close>, whatever blocks of \<open>pre\<close>
  declared \<open>k\<close> before.
\<close>

theorem key_is_id_last_block_wins:
  assumes "parse_kicad_sym rnd content = Inr symbols"
  shows "list_all (\<lambda>(k, e). sym_id e = k) symbols
         \<and> (scan_blocks content = pre @ b # post \<and> block_id b = Some k
              \<and> list_all (\<lambda>b'. block_id b' \<noteq> Some k) post
            \<longrightarrow> (\<exists>e. parse_symbol_block rnd k b = Inr e \<and> map_of symbols k = Some e))"
proof (intro conjI impI)
  from assms have f: "fold_err (store_block rnd) (scan_blocks content) [] = Inr symbols"
    by (simp add: parse_kicad_sym_def parse_loop_blocks)
  from fold_store_ids [OF f] show "list_all (\<lambda>(k, e). sym_id e = k) symbols"
    by (simp add: list_all_iff)
  assume a: "scan_blocks content = pre @ b # post \<and> block_id b = Some k
             \<and> list_all (\<lambda>b'. block_id b' \<noteq> Some k) post"
  with f have "bind_err (fold_err (store_block rnd) pre [])
                 (fold_err (store_block rnd) (b # post)) = Inr symbols"
    by (simp add: fold_err_append)
  then obtain st1 st2 where
    s1: "fold_err (store_block rnd) pre [] = Inr st1"
    and s2: "store_block rnd b st1 = Inr st2"
    and s3: "fold_err (store_block rnd) post st2 = Inr symbols"
    by (auto simp: bind_err_Inr)
  from s2 a obtain e where
    e: "parse_symbol_block rnd k b = Inr e" and st2: "st2 = AList.update k e st1"
    by (auto simp: store_block_def split: sum.splits)
  from fold_store_other [OF s3] a have "map_of symbols k = map_of st2 k" by simp
  with st2 have "map_of symbols k = Some e" by (simp add: AList.update_conv')
  with e show "\<exists>e. parse_symbol_block rnd k b = Inr e \<and> map_of symbols k = Some e" by blast
qed

theorem key_is_id_last_block_wins_witness:
  "parse_kicad_sym Finite (text_x1 @ '' '' @ text_x2) = Inr [(''X'', entry_x2)]
   \<and> scan_blocks (text_x1 @ '' '' @ text_x2) = [text_x1] @ text_x2 # []
   \<and> block_id text_x1 = Some ''X'' \<and> block_id text_x2 = Some ''X''
   \<and> list_all (\<lambda>(k, e). sym_id e = k) [(''X'', entry_x2)]
   \<and> (\<exists>e. parse_symbol_block Finite ''X'' text_x2 = Inr e
            \<and> map_of [(''X'', entry_x2)] ''X'' = Some e)
   \<and> sym_id entry_x2 = ''X'' \<and> bbox entry_x2 = None"
proof -
  have h1: "block_id text_x1 = Some ''X''" by code_simp
  have h2: "block_id text_x2 = Some ''X''" by code_simp
  have h3: "list_all (\<lambda>b'. block_id b' \<noteq> Some ''X'') []" by simp
  from key_is_id_last_block_wins [OF parse_text_dup, of "[text_x1]" text_x2 "[]" "''X''"]
    blocks_text_dup h2 h3
  have "list_all (\<lambda>(k, e). sym_id e = k) [(''X'', entry_x2)]
        \<and> (\<exists>e. parse_symbol_block Finite ''X'' text_x2 = Inr e
                 \<and> map_of [(''X'', entry_x2)] ''X'' = Some e)"
    by simp
  with parse_text_dup blocks_text_dup h1 h2 show ?thesis
    by (simp add: entry_x2_def)
qed

section \<open>The merge of the files\<close>

lemma map_of_dict_update:
  "map_of (dict_update all_symbols symbols) = map_of all_symbols ++ map_of (rev symbols)"
  unfolding dict_update_def
proof (induction symbols arbitrary: all_symbols)
  case Nil
  then show ?case by simp
next
  case (Cons p symbols)
  obtain k v where p: "p = (k, v)" by (cases p)
  show ?case
    by (auto simp: p Cons.IH AList.update_conv' fun_eq_iff map_add_def split: option.splits)
qed

lemma map_of_rev_distinct: "distinct (map fst xs) \<Longrightarrow> map_of (rev xs) = map_of xs"
proof (induction xs)
  case Nil
  then show ?case by simp
next
  case (Cons p xs)
  obtain k v where p: "p = (k, v)" by (cases p)
  from Cons.prems have "map_of xs k = None" by (simp add: p map_of_eq_None_iff)
  with Cons show ?case
    by (auto simp: p fun_eq_iff map_add_def split: option.splits)
qed

lemma dict_update_lookup:
  "distinct (map fst symbols) \<Longrightarrow> map_of symbols k = Some e
   \<Longrightarrow> map_of (dict_update all_symbols symbols) k = Some e"
  by (simp add: map_of_dict_update map_of_rev_distinct map_add_Some_iff)

lemma parse_text_x1: "parse_kicad_sym Finite text_x1 = Inr [(''X'', entry_x1)]"
  by code_simp

lemma parse_text_x2: "parse_kicad_sym Finite text_x2 = Inr [(''X'', entry_x2)]"
  by code_simp

text \<open>
  Claim C7. When two files are read one after the other and both define an entry for the
  identifier \<open>k\<close>, the index built by the loop of \<open>main\<close> (before inheritance is
  resolved) holds under \<open>k\<close> the entry of the second file, whole: nothing of the first
  file's entry is kept. The index \<open>all_symbols\<close> the loop starts from is arbitrary.
\<close>

theorem later_file_replaces:
  assumes "parse_kicad_sym rnd content1 = Inr symbols1"
    and "parse_kicad_sym rnd content2 = Inr symbols2"
    and "map_of symbols1 k = Some e1"
    and "map_of symbols2 k = Some e2"
  shows "merge_files rnd [content1, content2] all_symbols =
           Inr (dict_update (dict_update all_symbols symbols1) symbols2)
         \<and> map_of (dict_update (dict_update all_symbols symbols1) symbols2) k = Some e2"
proof -
  from assms(2) have "distinct (map fst symbols2)" by (rule parse_kicad_sym_distinct)
  with assms(4) have
    "map_of (dict_update (dict_update all_symbols symbols1) symbols2) k = Some e2"
    by (simp add: dict_update_lookup)
  with assms(1,2) show ?thesis by simp
qed

theorem later_file_replaces_witness:
  "parse_kicad_sym Finite text_x1 = Inr [(''X'', entry_x1)]
   \<and> parse_kicad_sym Finite text_x2 = Inr [(''X'', entry_x2)]
   \<and> map_of [(''X'', entry_x1)] ''X'' = Some entry_x1
   \<and> map_of [(''X'', entry_x2)] ''X'' = Some entry_x2
   \<and> merge_files Finite [text_x1, text_x2] [] = Inr [(''X'', entry_x2)]
   \<and> map_of [(''X'', entry_x2)] ''X'' = Some entry_x2
   \<and> bbox entry_x1 = Some unit_box \<and> bbox entry_x2 = None"
proof -
  have h3: "map_of [(''X'', entry_x1)] ''X'' = Some entry_x1" by simp
  have h4: "map_of [(''X'', entry_x2)] ''X'' = Some entry_x2" by simp
  have d: "dict_update (dict_update [] [(''X'', entry_x1)]) [(''X'', entry_x2)] = [(''X'', entry_x2)]"
    by (simp add: dict_update_def)
  from later_file_replaces [OF parse_text_x1 parse_text_x2 h3 h4, of "[]"]
  have "merge_files Finite [text_x1, text_x2] [] = Inr [(''X'', entry_x2)]"
    by (simp only: d)
  with parse_text_x1 parse_text_x2 show ?thesis
    by (simp add: entry_x1_def entry_x2_def)
qed

section \<open>The order of the pass\<close>

lemma resolve_step_self:
  "map_of (resolve_step k st) k = map_option (fill st) (map_of st k)"
  by (auto simp: resolve_step_def fill_def AList.update_conv' split: option.splits)

lemma fill_pins:
  "extends A = Some b \<Longrightarrow> b \<noteq> [] \<Longrightarrow> pins A = [] \<Longrightarrow> map_of st b = Some B'
   \<Longrightarrow> pins (fill st A) = pins B'"
  by (simp add: fill_def inherit_def Let_def)

lemma parse_text_BAC: "parse_kicad_sym Finite (text_B @ text_A @ text_C) = Inr index_BAC"
  by code_simp

lemma parse_text_ABC: "parse_kicad_sym Finite (text_A @ text_B @ text_C) = Inr index_ABC"
  by code_simp

lemma resolve_BAC:
  "resolve_inheritance index_BAC =
     [(''B'', chain_B\<lparr>pins := [pin_c]\<rparr>), (''A'', chain_A\<lparr>pins := [pin_c]\<rparr>), (''C'', chain_C)]"
  by code_simp

lemma resolve_ABC_once:
  "resolve_inheritance index_ABC =
     [(''A'', chain_A), (''B'', chain_B\<lparr>pins := [pin_c]\<rparr>), (''C'', chain_C)]"
  by code_simp

lemma resolve_ABC_twice:
  "resolve_inheritance (resolve_inheritance index_ABC) =
     [(''A'', chain_A\<lparr>pins := [pin_c]\<rparr>), (''B'', chain_B\<lparr>pins := [pin_c]\<rparr>), (''C'', chain_C)]"
  by code_simp

text \<open>
  Claim C3 says that an entry \<open>A\<close> whose base \<open>B\<close> starts with an empty pin list never
  receives the pins of \<open>B\<close>'s own base \<open>C\<close>, in whatever order the entries are visited.
  The pass reads the dictionary as the iterations before left it: in the index
  \<open>B, A, C\<close> (the index of a text with the three blocks in that order) the entry \<open>B\<close>
  is filled from \<open>C\<close> first, and \<open>A\<close> is then filled from the filled \<open>B\<close>.
\<close>

theorem second_level_counterexample:
  "parse_kicad_sym Finite (text_B @ text_A @ text_C) = Inr index_BAC
   \<and> map_of index_BAC ''A'' = Some chain_A \<and> extends chain_A = Some ''B''
   \<and> map_of index_BAC ''B'' = Some chain_B \<and> pins chain_B = [] \<and> extends chain_B = Some ''C''
   \<and> map_of index_BAC ''C'' = Some chain_C \<and> pins chain_C = [pin_c]
   \<and> map_option pins (map_of (resolve_inheritance index_BAC) ''A'') = Some [pin_c]"
  by (simp add: resolve_BAC parse_text_BAC)
     (simp add: index_BAC_def chain_A_def chain_B_def chain_C_def)

text \<open>
  Claim C3, amended. The pass visits the entries in the order of the index and reads the
  index as updated so far. For an entry \<open>A\<close> with an empty pin list and base \<open>B\<close>, in an
  index with distinct keys: when \<open>A\<close> comes before \<open>B\<close> and \<open>B\<close> starts with an empty
  pin list, \<open>A\<close> ends with an empty pin list (no second-level propagation); when \<open>B\<close>
  comes before \<open>A\<close>, \<open>A\<close> ends with the pin list that \<open>B\<close> ends with (the pins of
  \<open>C\<close>, when \<open>B\<close> took them from \<open>C\<close>).
\<close>

theorem second_level_by_order:
  assumes "distinct (map fst symbols)" and "extends A = Some b" and "pins A = []"
  shows "(symbols = pre @ (a, A) # mid @ (b, B) # post \<and> pins B = []
            \<longrightarrow> (\<exists>A'. map_of (resolve_inheritance symbols) a = Some A' \<and> pins A' = []))
         \<and> (symbols = pre @ (b, B) # mid @ (a, A) # post \<and> b \<noteq> []
            \<longrightarrow> (\<exists>A' B'. map_of (resolve_inheritance symbols) a = Some A'
                   \<and> map_of (resolve_inheritance symbols) b = Some B' \<and> pins A' = pins B'))"
proof (intro conjI impI)
  assume h: "symbols = pre @ (a, A) # mid @ (b, B) # post \<and> pins B = []"
  let ?k1 = "map fst pre" and ?k2 = "map fst mid @ b # map fst post"
  from h assms(1) have d: "a \<notin> set ?k1" "b \<notin> set ?k1" "a \<notin> set ?k2" "a \<noteq> b"
    by auto
  from h have "(a, A) \<in> set symbols" "(b, B) \<in> set symbols"
    by simp_all
  with assms(1) have m: "map_of symbols a = Some A" "map_of symbols b = Some B"
    by (simp_all only: map_of_is_SomeI)
  let ?st1 = "fold resolve_step ?k1 symbols"
  have st1: "map_of ?st1 a = Some A" "map_of ?st1 b = Some B"
    using d m by (simp_all add: fold_resolve_other)
  have p: "pins (fill ?st1 A) = []"
    using assms(2,3) st1(2) h by (simp add: fill_def inherit_def Let_def)
  have s: "map_of (resolve_step a ?st1) a = Some (fill ?st1 A)"
    using st1(1) by (simp add: resolve_step_self)
  have r: "resolve_inheritance symbols = fold resolve_step ?k2 (resolve_step a ?st1)"
    using h by (simp add: resolve_inheritance_def)
  have "map_of (resolve_inheritance symbols) a = map_of (resolve_step a ?st1) a"
    unfolding r using d(3) by (rule fold_resolve_other)
  with s p show "\<exists>A'. map_of (resolve_inheritance symbols) a = Some A' \<and> pins A' = []"
    by simp
next
  assume h: "symbols = pre @ (b, B) # mid @ (a, A) # post \<and> b \<noteq> []"
  let ?k1 = "map fst pre" and ?k2 = "map fst mid" and ?k3 = "map fst post"
  from h assms(1) have d: "a \<notin> set ?k1" "b \<notin> set ?k1" "a \<notin> set ?k2" "b \<notin> set ?k2"
    "a \<notin> set ?k3" "b \<notin> set ?k3" "a \<noteq> b"
    by auto
  from h have "(a, A) \<in> set symbols" "(b, B) \<in> set symbols"
    by simp_all
  with assms(1) have m: "map_of symbols a = Some A" "map_of symbols b = Some B"
    by (simp_all only: map_of_is_SomeI)
  let ?st1 = "fold resolve_step ?k1 symbols"
  let ?st2 = "resolve_step b ?st1"
  let ?st3 = "fold resolve_step ?k2 ?st2"
  let ?st4 = "resolve_step a ?st3"
  let ?B' = "fill ?st1 B"
  have st1: "map_of ?st1 a = Some A" "map_of ?st1 b = Some B"
    using d m by (simp_all add: fold_resolve_other)
  have st2: "map_of ?st2 a = Some A" "map_of ?st2 b = Some ?B'"
    using st1 d(7) by (simp_all add: resolve_step_other resolve_step_self)
  have st3: "map_of ?st3 a = Some A" "map_of ?st3 b = Some ?B'"
    using st2 d by (simp_all add: fold_resolve_other)
  have fa: "pins (fill ?st3 A) = pins ?B'"
    using assms(2) conjunct2 [OF h] assms(3) st3(2) by (rule fill_pins)
  have st4: "map_of ?st4 a = Some (fill ?st3 A)" "map_of ?st4 b = Some ?B'"
    using st3 d(7) by (simp_all add: resolve_step_other resolve_step_self)
  have r: "resolve_inheritance symbols = fold resolve_step ?k3 ?st4"
    using h by (simp add: resolve_inheritance_def)
  have "map_of (resolve_inheritance symbols) a = map_of ?st4 a"
    unfolding r using d(5) by (rule fold_resolve_other)
  moreover have "map_of (resolve_inheritance symbols) b = map_of ?st4 b"
    unfolding r using d(6) by (rule fold_resolve_other)
  ultimately have "map_of (resolve_inheritance symbols) a = Some (fill ?st3 A)"
    "map_of (resolve_inheritance symbols) b = Some ?B'"
    using st4 by simp_all
  with fa show "\<exists>A' B'. map_of (resolve_inheritance symbols) a = Some A'
                   \<and> map_of (resolve_inheritance symbols) b = Some B' \<and> pins A' = pins B'"
    by simp
qed

theorem second_level_by_order_witness:
  "distinct (map fst index_ABC) \<and> distinct (map fst index_BAC)
   \<and> extends chain_A = Some ''B'' \<and> pins chain_A = [] \<and> pins chain_B = []
   \<and> index_ABC = [] @ (''A'', chain_A) # [] @ (''B'', chain_B) # [(''C'', chain_C)]
   \<and> (\<exists>A'. map_of (resolve_inheritance index_ABC) ''A'' = Some A' \<and> pins A' = [])
   \<and> index_BAC = [] @ (''B'', chain_B) # [] @ (''A'', chain_A) # [(''C'', chain_C)]
   \<and> (\<exists>A' B'. map_of (resolve_inheritance index_BAC) ''A'' = Some A'
          \<and> map_of (resolve_inheritance index_BAC) ''B'' = Some B' \<and> pins A' = pins B')"
proof -
  have d1: "distinct (map fst index_ABC)" by (simp add: index_ABC_def)
  have d2: "distinct (map fst index_BAC)" by (simp add: index_BAC_def)
  have e: "extends chain_A = Some ''B''" "pins chain_A = []" "pins chain_B = []"
    by (simp_all add: chain_A_def chain_B_def)
  have s1: "index_ABC = [] @ (''A'', chain_A) # [] @ (''B'', chain_B) # [(''C'', chain_C)]"
    by (simp add: index_ABC_def)
  have s2: "index_BAC = [] @ (''B'', chain_B) # [] @ (''A'', chain_A) # [(''C'', chain_C)]"
    by (simp add: index_BAC_def)
  have n: "''B'' \<noteq> []" by simp
  from second_level_by_order [OF d1 e(1,2), of "[]" "''A''" "[]" chain_B "[(''C'', chain_C)]"]
    s1 e(3)
  have r1: "\<exists>A'. map_of (resolve_inheritance index_ABC) ''A'' = Some A' \<and> pins A' = []"
    by blast
  from second_level_by_order [OF d2 e(1,2), of "[]" "''A''" "[]" chain_B "[(''C'', chain_C)]"]
    s2 n
  have r2: "\<exists>A' B'. map_of (resolve_inheritance index_BAC) ''A'' = Some A'
          \<and> map_of (resolve_inheritance index_BAC) ''B'' = Some B' \<and> pins A' = pins B'"
    by blast
  from d1 d2 e s1 s2 r1 r2 show ?thesis by blast
qed

section \<open>Running the pass twice\<close>

text \<open>
  Claim C4 says that running \<open>resolve_inheritance\<close> twice gives the same index as
  running it once, for every index. In the index \<open>A, B, C\<close> (the index of a text with
  the three blocks in that order) the first pass leaves \<open>A\<close> with the empty pin list
  \<open>B\<close> had when \<open>A\<close> was visited, and fills \<open>B\<close>; the second pass fills \<open>A\<close> from the
  filled \<open>B\<close>.
\<close>

theorem idempotent_counterexample:
  "parse_kicad_sym Finite (text_A @ text_B @ text_C) = Inr index_ABC
   \<and> resolve_inheritance (resolve_inheritance index_ABC) \<noteq> resolve_inheritance index_ABC"
  by (subst resolve_ABC_twice, subst resolve_ABC_once) (simp add: chain_A_def parse_text_ABC)

lemma resolve_step_no_base:
  assumes "map_of st k = Some e" and "extends e = None"
  shows "map_of (resolve_step k' st) k = Some e"
proof (cases "k' = k")
  case True
  with assms show ?thesis by (simp add: resolve_step_def)
next
  case False
  with assms show ?thesis by (simp add: resolve_step_other)
qed

lemma fold_resolve_no_base:
  "map_of st k = Some e \<Longrightarrow> extends e = None \<Longrightarrow> map_of (fold resolve_step ks st) k = Some e"
  by (induction ks arbitrary: st) (simp_all add: resolve_step_no_base)

lemma fold_resolve_inert:
  assumes "map_of st k = Some e"
    and "case extends e of None \<Rightarrow> True | Some c \<Rightarrow> map_of st c = None"
  shows "map_of (fold resolve_step ks st) k = Some e"
proof (cases "extends e")
  case None
  with assms(1) show ?thesis by (simp add: fold_resolve_no_base)
next
  case (Some c)
  with assms(2) have "c \<notin> fst ` set st" by (simp add: map_of_eq_None_iff)
  with assms(1) Some show ?thesis by (rule fold_resolve_absent_base)
qed

lemma fold_resolve_None:
  "map_of st k = None \<Longrightarrow> map_of (fold resolve_step ks st) k = None"
  using arg_cong [OF fold_resolve_keys [of ks st], of set]
  by (simp add: map_of_eq_None_iff)

lemma single_levelD:
  assumes "single_level symbols" and "(k, e) \<in> set symbols" and "extends e = Some b"
    and "map_of symbols b = Some base"
  shows "case extends base of None \<Rightarrow> True | Some c \<Rightarrow> map_of symbols c = None"
  using assms by (auto simp: single_level_def list_all_iff split: option.splits)

lemma fill_inert:
  "(case extends base of None \<Rightarrow> True | Some c \<Rightarrow> map_of symbols c = None)
   \<Longrightarrow> fill symbols base = base"
  by (simp add: fill_def split: option.splits)

lemma fill_stable:
  assumes "single_level symbols" and "(k, e) \<in> set symbols"
  shows "fill (fold resolve_step ks symbols) e = fill symbols e"
proof (cases "extends e")
  case None
  then show ?thesis by (simp add: fill_def)
next
  case (Some b)
  show ?thesis
  proof (cases "map_of symbols b")
    case None
    then have "map_of (fold resolve_step ks symbols) b = None" by (rule fold_resolve_None)
    with None Some show ?thesis by (simp add: fill_def)
  next
    case (Some base)
    from single_levelD [OF assms \<open>extends e = Some b\<close> Some]
    have "map_of (fold resolve_step ks symbols) b = Some base"
      by (rule fold_resolve_inert [OF Some])
    with Some \<open>extends e = Some b\<close> show ?thesis by (simp add: fill_def)
  qed
qed

lemma resolve_lookup:
  assumes "distinct (map fst symbols)" and "single_level symbols"
  shows "map_of (resolve_inheritance symbols) k = map_option (fill symbols) (map_of symbols k)"
proof (cases "map_of symbols k")
  case None
  then show ?thesis by (simp add: resolve_inheritance_def fold_resolve_None)
next
  case (Some e)
  then have mem: "(k, e) \<in> set symbols" by (rule map_of_SomeD)
  then have "k \<in> set (map fst symbols)" by force
  then obtain ks1 ks2 where ks: "map fst symbols = ks1 @ k # ks2"
    by (auto dest: split_list)
  with assms(1) have d: "k \<notin> set ks1" "k \<notin> set ks2" by auto
  let ?st1 = "fold resolve_step ks1 symbols"
  have "map_of ?st1 k = Some e" using d(1) Some by (simp add: fold_resolve_other)
  then have "map_of (resolve_step k ?st1) k = Some (fill ?st1 e)"
    by (simp add: resolve_step_self)
  moreover have "fill ?st1 e = fill symbols e" using assms(2) mem by (rule fill_stable)
  moreover have "map_of (resolve_inheritance symbols) k = map_of (resolve_step k ?st1) k"
    using fold_resolve_other [OF d(2), of "resolve_step k ?st1"]
    by (simp add: resolve_inheritance_def ks)
  ultimately show ?thesis using Some by simp
qed

lemma extends_inherit: "extends (inherit e base) = extends e"
  by (simp add: inherit_def Let_def)

lemma extends_fill: "extends (fill symbols e) = extends e"
  by (simp add: fill_def extends_inherit split: option.splits)

lemma inherit_twice: "inherit (inherit e base) base = inherit e base"
  by (simp add: inherit_def Let_def)

lemma resolve_keys: "map fst (resolve_inheritance symbols) = map fst symbols"
  by (simp add: resolve_inheritance_def fold_resolve_keys)

lemma fill_fill:
  assumes "distinct (map fst symbols)" and "single_level symbols" and "(k, e) \<in> set symbols"
  shows "fill (resolve_inheritance symbols) (fill symbols e) = fill symbols e"
proof (cases "extends e")
  case None
  then show ?thesis by (simp add: fill_def)
next
  case (Some b)
  show ?thesis
  proof (cases "map_of symbols b")
    case None
    with assms(1,2) have "map_of (resolve_inheritance symbols) b = None"
      by (simp add: resolve_lookup)
    with None Some show ?thesis by (simp add: fill_def)
  next
    case (Some base)
    from single_levelD [OF assms(2,3) \<open>extends e = Some b\<close> Some]
    have "fill symbols base = base" by (rule fill_inert)
    with assms(1,2) Some have "map_of (resolve_inheritance symbols) b = Some base"
      by (simp add: resolve_lookup)
    with Some \<open>extends e = Some b\<close> show ?thesis
      by (simp add: fill_def extends_inherit inherit_twice)
  qed
qed

lemma single_level_resolve:
  assumes "distinct (map fst symbols)" and "single_level symbols"
  shows "single_level (resolve_inheritance symbols)"
  unfolding single_level_def list_all_iff
proof (intro ballI, clarify)
  fix k e'
  assume m: "(k, e') \<in> set (resolve_inheritance symbols)"
  have dr: "distinct (map fst (resolve_inheritance symbols))"
    using assms(1) by (simp add: resolve_keys)
  from dr m have "map_of (resolve_inheritance symbols) k = Some e'" by (rule map_of_is_SomeI)
  with assms obtain e where e: "map_of symbols k = Some e" "e' = fill symbols e"
    by (auto simp: resolve_lookup)
  from e(1) have mem: "(k, e) \<in> set symbols" by (rule map_of_SomeD)
  show "case extends e' of None \<Rightarrow> True
        | Some b \<Rightarrow>
            (case map_of (resolve_inheritance symbols) b of None \<Rightarrow> True
             | Some base \<Rightarrow>
                 (case extends base of None \<Rightarrow> True
                  | Some c \<Rightarrow> map_of (resolve_inheritance symbols) c = None))"
  proof (cases "extends e")
    case None
    then show ?thesis by (simp add: e(2) extends_fill)
  next
    case (Some b)
    show ?thesis
    proof (cases "map_of symbols b")
      case None
      with assms Some show ?thesis by (simp add: e(2) extends_fill resolve_lookup)
    next
      case (Some base)
      from single_levelD [OF assms(2) mem \<open>extends e = Some b\<close> Some]
      have i: "case extends base of None \<Rightarrow> True | Some c \<Rightarrow> map_of symbols c = None" .
      then have "fill symbols base = base" by (rule fill_inert)
      with assms Some i \<open>extends e = Some b\<close> show ?thesis
        by (auto simp: e(2) extends_fill resolve_lookup split: option.splits)
    qed
  qed
qed

lemma alist_eqI:
  "map fst xs = map fst ys \<Longrightarrow> distinct (map fst xs) \<Longrightarrow> map_of xs = map_of ys \<Longrightarrow> xs = ys"
proof (induction xs arbitrary: ys)
  case Nil
  then show ?case by simp
next
  case (Cons p xs)
  from Cons.prems(1) obtain q ys' where ys: "ys = q # ys'" "fst q = fst p" "map fst xs = map fst ys'"
    by (cases ys) auto
  obtain k v where p: "p = (k, v)" by (cases p)
  with ys(2) obtain v' where q: "q = (k, v')" by (cases q) auto
  from fun_cong [OF Cons.prems(3), of k] have vv: "v = v'" by (simp add: p q ys(1))
  from Cons.prems(2) have kx: "k \<notin> fst ` set xs" by (simp add: p)
  have "fst ` set xs = fst ` set ys'" using arg_cong [OF ys(3), of set] by simp
  with kx have ky: "k \<notin> fst ` set ys'" by simp
  have "map_of xs = map_of ys'"
  proof
    fix j
    show "map_of xs j = map_of ys' j"
    proof (cases "j = k")
      case True
      from kx ky have "map_of xs k = None" "map_of ys' k = None"
        by (simp_all add: map_of_eq_None_iff)
      with True show ?thesis by simp
    next
      case False
      from fun_cong [OF Cons.prems(3), of j] False show ?thesis by (simp add: p q ys(1))
    qed
  qed
  with Cons.IH [OF ys(3)] Cons.prems(2) have "xs = ys'" by simp
  with vv show ?case by (simp add: p q ys(1))
qed

text \<open>
  Claim C4, amended. On every index with distinct keys and without multi-level
  inheritance, running \<open>resolve_inheritance\<close> twice gives the same index as running it
  once.
\<close>

theorem idempotent_single_level:
  assumes "distinct (map fst symbols)" and "single_level symbols"
  shows "resolve_inheritance (resolve_inheritance symbols) = resolve_inheritance symbols"
proof (rule alist_eqI)
  show "map fst (resolve_inheritance (resolve_inheritance symbols)) =
        map fst (resolve_inheritance symbols)"
    by (simp add: resolve_keys)
  show "distinct (map fst (resolve_inheritance (resolve_inheritance symbols)))"
    using assms(1) by (simp add: resolve_keys)
  have dr: "distinct (map fst (resolve_inheritance symbols))"
    using assms(1) by (simp add: resolve_keys)
  have sr: "single_level (resolve_inheritance symbols)"
    using assms by (rule single_level_resolve)
  show "map_of (resolve_inheritance (resolve_inheritance symbols)) =
        map_of (resolve_inheritance symbols)"
  proof
    fix k
    show "map_of (resolve_inheritance (resolve_inheritance symbols)) k =
          map_of (resolve_inheritance symbols) k"
    proof (cases "map_of symbols k")
      case None
      with assms dr sr show ?thesis by (simp add: resolve_lookup)
    next
      case (Some e)
      then have "(k, e) \<in> set symbols" by (rule map_of_SomeD)
      with assms have "fill (resolve_inheritance symbols) (fill symbols e) = fill symbols e"
        by (rule fill_fill)
      with assms dr sr Some show ?thesis by (simp add: resolve_lookup)
    qed
  qed
qed

theorem idempotent_single_level_witness:
  "distinct (map fst index_inherit_box) \<and> single_level index_inherit_box
   \<and> resolve_inheritance (resolve_inheritance index_inherit_box) =
       resolve_inheritance index_inherit_box"
proof -
  have d: "distinct (map fst index_inherit_box)" by (simp add: index_inherit_box_def)
  have s: "single_level index_inherit_box" by code_simp
  from idempotent_single_level [OF d s] d s show ?thesis by simp
qed

section \<open>A text that ends inside a block\<close>

text \<open>
  When the inner loop stops before the end of the text, it stopped at the closing
  parenthesis that brought \<open>depth\<close> to 0, and the text it went over is balanced.
\<close>

lemma scan_block_balanced:
  "scan_block s depth < length s \<Longrightarrow>
   int (count_list (take (scan_block s depth) s) CHR ''('') + depth =
   int (count_list (take (scan_block s depth) s) CHR '')'')"
proof (induction s arbitrary: depth)
  case Nil
  then show ?case by simp
next
  case (Cons c cs)
  show ?case
  proof (cases "c = CHR ''(''")
    case True
    with Cons.prems have "scan_block cs (depth + 1) < length cs" by simp
    from Cons.IH [OF this] True show ?thesis by simp
  next
    case no: False
    show ?thesis
    proof (cases "c = CHR '')''")
      case True
      show ?thesis
      proof (cases "depth - 1 = 0")
        case True
        with \<open>c = CHR '')''\<close> show ?thesis by simp
      next
        case False
        with True Cons.prems have "scan_block cs (depth - 1) < length cs" by simp
        from Cons.IH [OF this] True False show ?thesis by simp
      qed
    next
      case False
      with no Cons.prems have "scan_block cs depth < length cs" by simp
      from Cons.IH [OF this] no False show ?thesis by simp
    qed
  qed
qed

text \<open>
  Claim C1 says that a block whose depth never returns to 0 is dropped: no block is
  emitted for it and no entry of the index comes from it. On the text \<open>text_cut\<close> the
  inner loop runs to the end of the text, line 60 takes the text from the marker to the
  end as the block, and the entry built from it is stored under \<open>A\<close>.
\<close>

theorem unterminated_block_stored:
  "scan_block text_cut 0 = length text_cut
   \<and> parse_kicad_sym rnd text_cut = Inr [(''A'', entry_cut)]
   \<and> kicad_sym_raw entry_cut = text_cut"
  by code_simp

text \<open>
  Claim C2 says that every block the scan emits has as many opening as closing
  parentheses. The block emitted for \<open>text_cut\<close> has two opening parentheses and no
  closing one, and it is the raw text of the entry stored under \<open>A\<close>.
\<close>

theorem unterminated_block_unbalanced:
  "scan_blocks text_cut = [text_cut]
   \<and> count_list text_cut CHR ''('' = 2 \<and> count_list text_cut CHR '')'' = 0
   \<and> map_option kicad_sym_raw (map_of (projr (parse_kicad_sym rnd text_cut)) ''A'') = Some text_cut"
  by code_simp

end
